theory Spec2Isabelle
  imports Main "HOL-Library.Multiset"
begin

section \<open>Strings\<close>

text \<open>
  Python strings are modelled as \<open>string\<close>, one \<open>char\<close> per code point below 256.
  \<open>str.lower\<close> maps the upper-case letters of that range (A-Z and the Latin-1 capitals)
  to the letter 32 code points higher and leaves every other character alone.
\<close>

definition lower_char :: "char \<Rightarrow> char" where
  "lower_char c =
     (let n = (of_char c :: nat)
      in if (65 \<le> n \<and> n \<le> 90) \<or> (192 \<le> n \<and> n \<le> 222 \<and> n \<noteq> 215)
         then char_of (n + 32) else c)"

definition lower :: "string \<Rightarrow> string" where
  "lower s = map lower_char s"

definition endswith :: "string \<Rightarrow> string \<Rightarrow> bool" where
  "endswith s suffix =
     (length suffix \<le> length s \<and> drop (length s - length suffix) s = suffix)"

section \<open>The libraries the crawler calls\<close>

text \<open>
  \<open>sitemap_generator.py\<close> calls \<open>requests.get\<close>, \<open>BeautifulSoup.find_all\<close>,
  \<open>urllib.parse.urljoin\<close> and \<open>urllib.parse.urlparse\<close>, and it iterates over a Python
  \<open>set\<close>. None of these is code of the repository, so the crawler is modelled over an
  environment \<open>env\<close> that supplies them, and the theorems hold for every environment.

  \<^item> \<open>requests_get env k url\<close> is what the \<open>k\<close>-th call of \<open>requests.get\<close> of the run
    (counting from 0) does when it is given \<open>url\<close>. It has three outcomes: it raises a
    \<open>requests.RequestException\<close> (a timeout, a failed connection, a URL that
    \<open>requests\<close> itself rejects), it raises an exception of some other class (\<open>urllib3\<close>'s
    \<open>LocationParseError\<close> is one that gets through), or it returns a response. The index
    lets the same URL be answered differently at different times.
  \<^item> \<open>find_all_href env text\<close> stands for \<open>BeautifulSoup(text, 'html.parser')\<close> followed
    by \<open>find_all('a', href=True)\<close>: the list of \<open>link['href']\<close> of the links found in
    a page with that text, or the exception the parser raises
    (\<open>ParserRejectedMarkup\<close>).
  \<^item> \<open>urljoin\<close> and \<open>urlparse\<close> can raise \<open>ValueError\<close> (for instance on an
    unbalanced bracket in the host part); that is the \<open>Inl\<close> result.
  \<^item> \<open>list_of_set env xs\<close> is \<open>list(s)\<close> for a set \<open>s\<close> whose elements were inserted in
    the order \<open>xs\<close>: Python promises no iteration order for a set.

  An \<open>error\<close> is an exception that no handler of \<open>crawl_urls\<close> catches: the two built-in
  classes the code can meet, and \<open>OtherError name\<close> for an exception of any other class
  that is not a \<open>RequestException\<close>, by the name of its class.
\<close>

datatype error = ValueError | IndexError | OtherError string

record parse_result =
  scheme :: string
  netloc :: string
  path :: string
  params :: string
  query :: string
  fragment :: string

datatype response = Response (status_code: int) (response_text: string)

datatype fetch_result = RequestException | Raised error | Returned response

record env =
  requests_get :: "nat \<Rightarrow> string \<Rightarrow> fetch_result"
  find_all_href :: "string \<Rightarrow> error + string list"
  urljoin :: "string \<Rightarrow> string \<Rightarrow> error + string"
  urlparse :: "string \<Rightarrow> error + parse_result"
  list_of_set :: "string list \<Rightarrow> string list"

text \<open>The one thing assumed of set iteration: it yields every element exactly once.\<close>

definition set_iteration :: "env \<Rightarrow> bool" where
  "set_iteration env = (\<forall>xs. mset (list_of_set env xs) = mset xs)"

section \<open>SitemapGenerator\<close>

text \<open>
  The object's attributes. \<open>visited_urls\<close> is a Python set; it is kept as the list of its
  elements in insertion order, which \<open>set_add\<close> keeps free of duplicates, so that the
  order in which pages were visited can be talked about. \<open>len\<close> of the set is the length
  of the list.
\<close>

record generator =
  base_url :: string
  max_pages :: int
  visited_urls :: "string list"
  ignore_urls :: "string set"
  domain :: string

definition set_add :: "string \<Rightarrow> string list \<Rightarrow> string list" where
  "set_add x xs = (if x \<in> set xs then xs else xs @ [x])"

text \<open>\<open>__init__\<close>: the only failure is \<open>urlparse(base_url)\<close> raising.\<close>

definition init :: "env \<Rightarrow> string \<Rightarrow> int \<Rightarrow> string list option \<Rightarrow> error + generator" where
  "init env base_url' max_pages' ignore_urls' =
     (case urlparse env base_url' of
        Inl e \<Rightarrow> Inl e
      | Inr parsed \<Rightarrow>
          Inr \<lparr> base_url = base_url',
                max_pages = max_pages',
                visited_urls = [],
                ignore_urls = (case ignore_urls' of None \<Rightarrow> {} | Some l \<Rightarrow> if l \<noteq> [] then set l else {}),
                domain = netloc parsed \<rparr>)"

definition file_extensions :: "string list" where
  "file_extensions =
     [''.pdf'', ''.jpg'', ''.jpeg'', ''.png'', ''.gif'',
      ''.zip'', ''.csv'', ''.docx'', ''.xlsx'', ''.txt'']"

definition is_file_url :: "string \<Rightarrow> bool" where
  "is_file_url url = list_ex (\<lambda>ext. endswith (lower url) ext) file_extensions"

definition is_valid_url :: "env \<Rightarrow> generator \<Rightarrow> string \<Rightarrow> error + bool" where
  "is_valid_url env g url =
     (case urlparse env url of
        Inl e \<Rightarrow> Inl e
      | Inr parsed \<Rightarrow>
          Inr (netloc parsed = domain g \<and>
               scheme parsed \<in> set [''http'', ''https''] \<and>
               \<not> is_file_url url \<and>
               url \<notin> set (visited_urls g) \<and>
               url \<notin> ignore_urls g \<and>
               int (length (visited_urls g)) < max_pages g))"

subsection \<open>crawl_urls\<close>

text \<open>
  The state of a run: the object, the local \<open>urls_to_crawl\<close>, and the run's effects, namely
  the URLs handed to \<open>requests.get\<close> so far, in order, and the lines printed. \<open>print\<close>
  is taken to succeed.
\<close>

record crawler =
  self :: generator
  urls_to_crawl :: "string list"
  requested :: "string list"
  stdout :: "string list"

text \<open>
  The \<open>for link in ...\<close> loop. It reads the object and appends to \<open>urls_to_crawl\<close>;
  a \<open>ValueError\<close> of \<open>urljoin\<close> or of \<open>urlparse\<close> (inside \<open>is_valid_url\<close>) ends it.
\<close>

fun link_loop ::
  "env \<Rightarrow> generator \<Rightarrow> string \<Rightarrow> string list \<Rightarrow> string list \<Rightarrow> (error + unit) \<times> string list"
where
  "link_loop env g current_url [] urls = (Inr (), urls)"
| "link_loop env g current_url (href # hrefs) urls =
     (case urljoin env current_url href of
        Inl e \<Rightarrow> (Inl e, urls)
      | Inr absolute_url \<Rightarrow>
          (case is_valid_url env g absolute_url of
             Inl e \<Rightarrow> (Inl e, urls)
           | Inr valid \<Rightarrow>
               link_loop env g current_url hrefs
                 (if valid then urls @ [absolute_url] else urls)))"

text \<open>
  One iteration of the \<open>while\<close> loop. The \<open>except\<close> clause catches only
  \<open>requests.RequestException\<close>: an exception of another class raised by
  \<open>requests.get\<close>, an exception of the HTML parser and an error of the link loop all
  leave the function, with the object and the queue as they are at that moment.
\<close>

definition crawl_step :: "env \<Rightarrow> crawler \<Rightarrow> (error + unit) \<times> crawler" where
  "crawl_step env s =
     (case urls_to_crawl s of
        [] \<Rightarrow> (Inl IndexError, s)
      | current_url # rest \<Rightarrow>
          let s = s\<lparr>urls_to_crawl := rest\<rparr> in
          if current_url \<in> set (visited_urls (self s)) then (Inr (), s)
          else
            let k = length (requested s);
                s = s\<lparr>requested := requested s @ [current_url]\<rparr>
            in case requests_get env k current_url of
                 RequestException \<Rightarrow>
                   (Inr (), s\<lparr>stdout := stdout s @ [''Could not fetch '' @ current_url]\<rparr>)
               | Raised e \<Rightarrow> (Inl e, s)
               | Returned response \<Rightarrow>
                   if status_code response = 200 then
                     let s = s\<lparr>self := (self s)\<lparr>visited_urls :=
                                          set_add current_url (visited_urls (self s))\<rparr>,
                               stdout := stdout s @ [''Visited: '' @ current_url]\<rparr>
                     in case find_all_href env (response_text response) of
                          Inl e \<Rightarrow> (Inl e, s)
                        | Inr hrefs \<Rightarrow>
                            let (r, urls) = link_loop env (self s) current_url hrefs
                                              (urls_to_crawl s)
                            in (r, s\<lparr>urls_to_crawl := urls\<rparr>)
                   else (Inr (), s))"

definition loop_cond :: "crawler \<Rightarrow> bool" where
  "loop_cond s =
     (urls_to_crawl s \<noteq> [] \<and> int (length (visited_urls (self s))) < max_pages (self s))"

function crawl_loop :: "env \<Rightarrow> crawler \<Rightarrow> (error + unit) \<times> crawler" where
  "crawl_loop env s =
     (if loop_cond s then
        (case crawl_step env s of
           (Inl e, s') \<Rightarrow> (Inl e, s')
         | (Inr u, s') \<Rightarrow> crawl_loop env s')
      else (Inr (), s))"
  by pat_completeness auto
termination
  by (relation "measures [\<lambda>(env, s). nat (max_pages (self s) - int (length (visited_urls (self s)))),
                          \<lambda>(env, s). length (urls_to_crawl s)]")
     (auto simp: crawl_step_def loop_cond_def Let_def set_add_def
           split: list.splits if_splits fetch_result.splits sum.splits prod.splits)

text \<open>
  The states of a run, in order: the state at each test of the loop condition and, when
  an iteration raises, the state it leaves behind.
\<close>

function crawl_trace :: "env \<Rightarrow> crawler \<Rightarrow> crawler list" where
  "crawl_trace env s =
     s # (if loop_cond s then
            (case crawl_step env s of
               (Inl e, s') \<Rightarrow> [s']
             | (Inr u, s') \<Rightarrow> crawl_trace env s')
          else [])"
  by pat_completeness auto
termination
  by (relation "measures [\<lambda>(env, s). nat (max_pages (self s) - int (length (visited_urls (self s)))),
                          \<lambda>(env, s). length (urls_to_crawl s)]")
     (auto simp: crawl_step_def loop_cond_def Let_def set_add_def
           split: list.splits if_splits fetch_result.splits sum.splits prod.splits)

text \<open>
  The states in which the loop condition is tested, in order: \<open>crawl_trace\<close> without the
  state that an iteration which raises leaves behind, since no test follows it.
\<close>

function crawl_tests :: "env \<Rightarrow> crawler \<Rightarrow> crawler list" where
  "crawl_tests env s =
     s # (if loop_cond s then
            (case crawl_step env s of
               (Inl e, s') \<Rightarrow> []
             | (Inr u, s') \<Rightarrow> crawl_tests env s')
          else [])"
  by pat_completeness auto
termination
  by (relation "measures [\<lambda>(env, s). nat (max_pages (self s) - int (length (visited_urls (self s)))),
                          \<lambda>(env, s). length (urls_to_crawl s)]")
     (auto simp: crawl_step_def loop_cond_def Let_def set_add_def
           split: list.splits if_splits fetch_result.splits sum.splits prod.splits)

definition crawl_start :: "generator \<Rightarrow> crawler" where
  "crawl_start g = \<lparr> self = g, urls_to_crawl = [base_url g], requested = [], stdout = [] \<rparr>"

text \<open>
  \<open>crawl_urls\<close> returns the list made from the set, or raises; either way the object and
  the effects of the run remain, which is the second component.
\<close>

definition crawl_urls :: "env \<Rightarrow> generator \<Rightarrow> (error + string list) \<times> crawler" where
  "crawl_urls env g =
     (case crawl_loop env (crawl_start g) of
        (Inl e, s) \<Rightarrow> (Inl e, s)
      | (Inr u, s) \<Rightarrow> (Inr (list_of_set env (visited_urls (self s))), s))"

section \<open>A sample environment\<close>

text \<open>
  Concrete runs need a concrete environment. \<open>py_urlparse\<close> follows the steps of CPython's
  \<open>urllib.parse.urlparse\<close>: strip leading control characters and spaces, drop tab, CR and
  LF, split off a scheme made of scheme characters, split off the host part after
  \<open>//\<close> (raising on an unbalanced bracket), then the fragment, the query and the
  parameters of the last path segment. The checks that later versions make on a
  bracketed host and on a non-ASCII host are left out; the sample URLs have neither.
\<close>

definition partition_at :: "char \<Rightarrow> string \<Rightarrow> string \<times> string" where
  "partition_at c s = (takeWhile (\<lambda>x. x \<noteq> c) s, drop 1 (dropWhile (\<lambda>x. x \<noteq> c) s))"

definition is_ascii_alpha :: "char \<Rightarrow> bool" where
  "is_ascii_alpha c =
     (let n = (of_char c :: nat) in (65 \<le> n \<and> n \<le> 90) \<or> (97 \<le> n \<and> n \<le> 122))"

definition is_scheme_char :: "char \<Rightarrow> bool" where
  "is_scheme_char c =
     (let n = (of_char c :: nat)
      in is_ascii_alpha c \<or> (48 \<le> n \<and> n \<le> 57) \<or> c \<in> set ''+-.'')"

definition split_scheme :: "string \<Rightarrow> string \<times> string" where
  "split_scheme url =
     (let pre = takeWhile (\<lambda>x. x \<noteq> CHR '':'') url
      in if CHR '':'' \<in> set url \<and> pre \<noteq> [] \<and> is_ascii_alpha (hd pre) \<and>
            list_all is_scheme_char pre
         then (lower pre, drop (length pre + 1) url)
         else ([], url))"

definition split_netloc :: "string \<Rightarrow> string \<times> string" where
  "split_netloc url =
     (if take 2 url = ''//'' then
        let rest = drop 2 url;
            loc = takeWhile (\<lambda>x. x \<notin> set ''/?#'') rest
        in (loc, drop (length loc) rest)
      else ([], url))"

definition uses_params :: "string list" where
  "uses_params =
     [[], ''ftp'', ''hdl'', ''prospero'', ''http'', ''imap'', ''https'', ''shttp'',
      ''rtsp'', ''rtspu'', ''sip'', ''sips'', ''mms'', ''sftp'', ''tel'']"

definition split_params :: "string \<Rightarrow> string \<times> string" where
  "split_params url =
     (let last_segment = rev (takeWhile (\<lambda>x. x \<noteq> CHR ''/'') (rev url));
          front = take (length url - length last_segment) url
      in if CHR '';'' \<in> set last_segment
         then (front @ fst (partition_at CHR '';'' last_segment),
               snd (partition_at CHR '';'' last_segment))
         else (url, []))"

definition py_urlparse :: "string \<Rightarrow> error + parse_result" where
  "py_urlparse url0 =
     (let url = dropWhile (\<lambda>c. (of_char c :: nat) \<le> 32) url0;
          url = filter (\<lambda>c. (of_char c :: nat) \<notin> set [9, 10, 13]) url;
          (scheme', url) = split_scheme url;
          (netloc', url) = split_netloc url
      in if (CHR ''['' \<in> set netloc') \<noteq> (CHR '']'' \<in> set netloc') then Inl ValueError
         else
           let (url, fragment') = partition_at CHR ''#'' url;
               (url, query') = partition_at CHR ''?'' url;
               (url, params') = (if scheme' \<in> set uses_params then split_params url else (url, []))
           in Inr \<lparr> scheme = scheme', netloc = netloc', path = url, params = params',
                    query = query', fragment = fragment' \<rparr>)"

text \<open>
  The sample site lives at \<open>http://example.com/\<close>. Its pages link to one another with
  absolute \<open>http\<close> references that name a host, and \<open>urljoin\<close> returns such a reference
  as it is, so \<open>sample_urljoin\<close> does. The home page links to \<open>/b\<close>, \<open>/a\<close>, a page of
  another host, a PDF and a page that answers 404; \<open>/a\<close> links back home and to \<open>/b\<close>.
  Every other request fails in transport. The parser rejects no page.
\<close>

definition sample_get :: "nat \<Rightarrow> string \<Rightarrow> fetch_result" where
  "sample_get k url =
     (if url = ''http://example.com/'' then Returned (Response 200 ''home'')
      else if url = ''http://example.com/a'' then Returned (Response 200 ''page a'')
      else if url = ''http://example.com/b'' then Returned (Response 200 ''page b'')
      else if url = ''http://example.com/missing'' then Returned (Response 404 ''not found'')
      else RequestException)"

definition sample_hrefs :: "string \<Rightarrow> string list" where
  "sample_hrefs page =
     (if page = ''home'' then
        [''http://example.com/b'', ''http://example.com/a'', ''http://other.example/x'',
         ''http://example.com/report.pdf'', ''http://example.com/missing'']
      else if page = ''page a'' then [''http://example.com/'', ''http://example.com/b'']
      else [])"

definition sample_urljoin :: "string \<Rightarrow> string \<Rightarrow> error + string" where
  "sample_urljoin base href = Inr href"

text \<open>Two environments that differ only in the order in which a set is iterated.\<close>

definition sample_env :: env where
  "sample_env =
     \<lparr> requests_get = sample_get, find_all_href = (\<lambda>page. Inr (sample_hrefs page)),
       urljoin = sample_urljoin, urlparse = py_urlparse, list_of_set = (\<lambda>xs. xs) \<rparr>"

definition sample_env_rev :: env where
  "sample_env_rev = sample_env\<lparr>list_of_set := rev\<rparr>"


text \<open>Objects as \<open>__init__\<close> builds them for the sample site, named for the runs below.\<close>

definition sample_gen :: "int \<Rightarrow> string set \<Rightarrow> generator" where
  "sample_gen m ig =
     \<lparr> base_url = ''http://example.com/'', max_pages = m, visited_urls = [],
       ignore_urls = ig, domain = ''example.com'' \<rparr>"

text \<open>
  The object \<open>__init__\<close> builds for the base URL \<open>not a url\<close>, which \<open>urlparse\<close> takes
  for a path: no scheme and no host.
\<close>

definition malformed_gen :: "int \<Rightarrow> generator" where
  "malformed_gen m =
     \<lparr> base_url = ''not a url'', max_pages = m, visited_urls = [], ignore_urls = {},
       domain = [] \<rparr>"


section \<open>Notions used in the statements\<close>

text \<open>
  The three ways a call of \<open>requests.get\<close> can end, as \<open>crawl_urls\<close> tells them apart.
  The fetch has succeeded when a response with status 200 came back. It has failed, in the
  sense of the \<open>except\<close> clause and of the status test, when \<open>requests.get\<close> raised a
  \<open>RequestException\<close>, the class under which \<open>requests\<close> reports timeouts, failed name
  lookups and refused or broken connections, or when the status is not 200. An exception
  of another class is neither. The URLs fetched successfully, in the order of their
  requests, are read off the list of requests: the \<open>k\<close>-th request is answered by
  \<open>requests_get env k\<close>.
\<close>

definition fetch_ok :: "fetch_result \<Rightarrow> bool" where
  "fetch_ok r =
     (case r of RequestException \<Rightarrow> False | Raised e \<Rightarrow> False
      | Returned response \<Rightarrow> status_code response = 200)"

definition fetch_failed :: "fetch_result \<Rightarrow> bool" where
  "fetch_failed r =
     (case r of RequestException \<Rightarrow> True | Raised e \<Rightarrow> False
      | Returned response \<Rightarrow> status_code response \<noteq> 200)"

definition successful :: "env \<Rightarrow> string list \<Rightarrow> string list" where
  "successful env reqs =
     map snd (filter (\<lambda>(k, url). fetch_ok (requests_get env k url)) (enumerate 0 reqs))"

text \<open>
  The clauses of \<open>is_valid_url\<close> that do not depend on the visited set: a URL that passed
  them once passes them for the rest of the run, since a run changes no other attribute.
\<close>

definition admissible :: "env \<Rightarrow> generator \<Rightarrow> string \<Rightarrow> bool" where
  "admissible env g url =
     (case urlparse env url of
        Inl e \<Rightarrow> False
      | Inr parsed \<Rightarrow>
          netloc parsed = domain g \<and> scheme parsed \<in> set [''http'', ''https''] \<and>
          \<not> is_file_url url \<and> url \<notin> ignore_urls g)"

definition same_config :: "generator \<Rightarrow> generator \<Rightarrow> bool" where
  "same_config g g' =
     (base_url g' = base_url g \<and> max_pages g' = max_pages g \<and>
      ignore_urls g' = ignore_urls g \<and> domain g' = domain g)"

text \<open>
  The invariant of the \<open>while\<close> loop, for a run that started from the object \<open>g\<close>: the
  configuration is that of \<open>g\<close>; every URL queued or requested is the base URL or passed
  the filter; the visited set holds the successfully fetched URLs, each once, in the
  order of their requests; and it has not outgrown the cap.
\<close>

definition crawl_inv :: "env \<Rightarrow> generator \<Rightarrow> crawler \<Rightarrow> bool" where
  "crawl_inv env g s =
     (same_config g (self s) \<and>
      list_all (\<lambda>url. url = base_url g \<or> admissible env g url) (urls_to_crawl s @ requested s) \<and>
      successful env (requested s) = visited_urls (self s) \<and>
      distinct (visited_urls (self s)) \<and>
      int (length (visited_urls (self s))) \<le> max 0 (max_pages g))"

section \<open>The loop invariant\<close>

text \<open>
  The equations of the loop and of its traces unfold forever as rewrite rules; they are
  used one unfolding at a time.
\<close>

declare crawl_loop.simps [simp del] crawl_trace.simps [simp del] crawl_tests.simps [simp del]

subsection \<open>Set iteration and the list of successful fetches\<close>

lemma set_iteration_set: "set_iteration env \<Longrightarrow> set (list_of_set env xs) = set xs"
  unfolding set_iteration_def by (metis set_mset_mset)

lemma set_iteration_length: "set_iteration env \<Longrightarrow> length (list_of_set env xs) = length xs"
  unfolding set_iteration_def by (metis size_mset)

lemma set_iteration_distinct:
  "set_iteration env \<Longrightarrow> distinct (list_of_set env xs) = distinct xs"
  unfolding set_iteration_def by (metis distinct_count_atmost_1 set_mset_mset)

lemma successful_Nil: "successful env [] = []"
  by (simp add: successful_def)

lemma fetch_cases: "fetch_failed r \<or> (\<exists>e. r = Raised e) \<or> fetch_ok r"
  by (cases r) (auto simp: fetch_failed_def fetch_ok_def)

lemma fetch_failed_not_ok: "fetch_failed r \<Longrightarrow> \<not> fetch_ok r"
  by (cases r) (auto simp: fetch_failed_def fetch_ok_def)

lemma successful_snoc:
  "successful env (reqs @ [url]) =
     successful env reqs @
       (if fetch_ok (requests_get env (length reqs) url) then [url] else [])"
  by (simp add: successful_def enumerate_append_eq)

lemma successful_subset: "set (successful env reqs) \<subseteq> set reqs"
  by (auto simp: successful_def enumerate_eq_zip dest: set_zip_rightD)

subsection \<open>One iteration\<close>

lemma valid_admissible:
  "is_valid_url env g' url = Inr True \<Longrightarrow> same_config g g' \<Longrightarrow> admissible env g url"
  by (auto simp: is_valid_url_def admissible_def same_config_def split: sum.splits)

lemma link_loop_appends:
  "\<exists>new. snd (link_loop env g c hrefs urls) = urls @ new \<and>
         list_all (\<lambda>url. is_valid_url env g url = Inr True) new"
proof (induction hrefs arbitrary: urls)
  case Nil
  show ?case by simp
next
  case (Cons href hrefs)
  show ?case
  proof (cases "urljoin env c href")
    case (Inl e)
    then show ?thesis by simp
  next
    case (Inr absolute_url)
    show ?thesis
    proof (cases "is_valid_url env g absolute_url")
      case (Inl e)
      with Inr show ?thesis by simp
    next
      case valid: (Inr valid)
      from Cons.IH [of "if valid then urls @ [absolute_url] else urls"]
      obtain new where
        new: "snd (link_loop env g c hrefs (if valid then urls @ [absolute_url] else urls)) =
                (if valid then urls @ [absolute_url] else urls) @ new"
             "list_all (\<lambda>url. is_valid_url env g url = Inr True) new"
        by blast
      show ?thesis
      proof (cases valid)
        case True
        with Inr valid new show ?thesis
          by (intro exI [of _ "absolute_url # new"]) simp
      next
        case False
        with Inr valid new show ?thesis
          by (intro exI [of _ new]) simp
      qed
    qed
  qed
qed

lemma link_loop_error:
  "fst (link_loop env g c hrefs urls) = Inl e \<Longrightarrow>
     (\<exists>href. urljoin env c href = Inl e) \<or> (\<exists>url. urlparse env url = Inl e)"
proof (induction hrefs arbitrary: urls)
  case Nil
  then show ?case by simp
next
  case (Cons href hrefs)
  then show ?case
    by (auto simp: is_valid_url_def split: sum.splits)
qed


lemma crawl_step_skip:
  "urls_to_crawl s = url # rest \<Longrightarrow> url \<in> set (visited_urls (self s)) \<Longrightarrow>
     crawl_step env s = (Inr (), s\<lparr>urls_to_crawl := rest\<rparr>)"
  by (simp add: crawl_step_def)

lemma crawl_step_failed:
  assumes "urls_to_crawl s = url # rest" "url \<notin> set (visited_urls (self s))"
    and "fetch_failed (requests_get env (length (requested s)) url)"
  shows "crawl_step env s =
       (Inr (), s\<lparr>urls_to_crawl := rest, requested := requested s @ [url],
                  stdout := stdout s @
                    (if requests_get env (length (requested s)) url = RequestException
                     then [''Could not fetch '' @ url] else [])\<rparr>)"
proof (cases "requests_get env (length (requested s)) url")
  case RequestException
  with assms(1,2) show ?thesis by (simp add: crawl_step_def)
next
  case (Raised e)
  with assms(3) show ?thesis by (simp add: fetch_failed_def)
next
  case (Returned response)
  with assms show ?thesis by (simp add: crawl_step_def fetch_failed_def)
qed

lemma crawl_step_raised:
  assumes "urls_to_crawl s = url # rest" "url \<notin> set (visited_urls (self s))"
    and "requests_get env (length (requested s)) url = Raised e"
  shows "crawl_step env s =
           (Inl e, s\<lparr>urls_to_crawl := rest, requested := requested s @ [url]\<rparr>)"
  using assms by (simp add: crawl_step_def)

lemma crawl_step_visited:
  assumes "urls_to_crawl s = url # rest" "url \<notin> set (visited_urls (self s))"
    and "fetch_ok (requests_get env (length (requested s)) url)"
  shows "\<exists>r new out.
     crawl_step env s =
       (r, s\<lparr>self := (self s)\<lparr>visited_urls := visited_urls (self s) @ [url]\<rparr>,
             urls_to_crawl := rest @ new, requested := requested s @ [url], stdout := out\<rparr>) \<and>
     list_all (\<lambda>x. is_valid_url env ((self s)\<lparr>visited_urls := visited_urls (self s) @ [url]\<rparr>) x
                     = Inr True) new \<and>
     (\<forall>e. r = Inl e \<longrightarrow>
        (\<exists>page. find_all_href env page = Inl e) \<or>
        (\<exists>href. urljoin env url href = Inl e) \<or> (\<exists>x. urlparse env x = Inl e))"
proof -
  from assms(3) obtain response where
    resp: "requests_get env (length (requested s)) url = Returned response"
          "status_code response = 200"
    by (auto simp: fetch_ok_def split: fetch_result.splits)
  define g' where "g' = (self s)\<lparr>visited_urls := visited_urls (self s) @ [url]\<rparr>"
  show ?thesis
  proof (cases "find_all_href env (response_text response)")
    case (Inl e)
    with assms(1,2) resp have "crawl_step env s =
      (Inl e, s\<lparr>self := g', urls_to_crawl := rest @ [], requested := requested s @ [url],
                stdout := stdout s @ [''Visited: '' @ url]\<rparr>)"
      by (simp add: crawl_step_def set_add_def g'_def)
    with Inl show ?thesis
      unfolding g'_def by (intro exI [of _ "Inl e"] exI [of _ "[]"] exI) auto
  next
    case (Inr hrefs)
    obtain new where
      new: "snd (link_loop env g' url hrefs rest) = rest @ new"
           "list_all (\<lambda>x. is_valid_url env g' x = Inr True) new"
      using link_loop_appends [of env g' url hrefs rest] by blast
    have err: "\<forall>e. fst (link_loop env g' url hrefs rest) = Inl e \<longrightarrow>
          (\<exists>href. urljoin env url href = Inl e) \<or> (\<exists>x. urlparse env x = Inl e)"
      using link_loop_error by blast
    have "crawl_step env s =
        (fst (link_loop env g' url hrefs rest),
         s\<lparr>self := g', urls_to_crawl := rest @ new, requested := requested s @ [url],
           stdout := stdout s @ [''Visited: '' @ url]\<rparr>)"
      using assms(1,2) resp new(1) Inr
      by (simp add: crawl_step_def set_add_def g'_def split_beta)
    with new(2) err show ?thesis
      unfolding g'_def by blast
  qed
qed

subsection \<open>The invariant holds throughout a run\<close>

lemma crawl_inv_start: "visited_urls g = [] \<Longrightarrow> crawl_inv env g (crawl_start g)"
  by (simp add: crawl_inv_def crawl_start_def same_config_def successful_Nil)

lemma crawl_inv_step:
  assumes inv: "crawl_inv env g s" and cond: "loop_cond s"
  shows "crawl_inv env g (snd (crawl_step env s))"
proof -
  from cond obtain url rest where q: "urls_to_crawl s = url # rest"
    by (cases "urls_to_crawl s") (auto simp: loop_cond_def)
  show ?thesis
  proof (cases "url \<in> set (visited_urls (self s))")
    case True
    with q inv show ?thesis
      by (simp add: crawl_step_skip crawl_inv_def)
  next
    case fresh: False
    consider (failed) "fetch_failed (requests_get env (length (requested s)) url)"
      | (raised) e where "requests_get env (length (requested s)) url = Raised e"
      | (ok) "fetch_ok (requests_get env (length (requested s)) url)"
      using fetch_cases by blast
    then show ?thesis
    proof cases
      case failed
      with crawl_step_failed [OF q fresh, of env] q inv show ?thesis
        by (simp add: crawl_inv_def successful_snoc fetch_failed_not_ok)
    next
      case raised
      with crawl_step_raised [OF q fresh, of env e] q inv show ?thesis
        by (simp add: crawl_inv_def successful_snoc fetch_ok_def)
    next
      case ok
      from crawl_step_visited [OF q fresh ok] obtain r new out where
        step: "crawl_step env s =
          (r, s\<lparr>self := (self s)\<lparr>visited_urls := visited_urls (self s) @ [url]\<rparr>,
                urls_to_crawl := rest @ new, requested := requested s @ [url], stdout := out\<rparr>)"
        and new: "list_all (\<lambda>x. is_valid_url env
                     ((self s)\<lparr>visited_urls := visited_urls (self s) @ [url]\<rparr>) x = Inr True) new"
        by blast
      from inv have cfg: "same_config g ((self s)\<lparr>visited_urls := visited_urls (self s) @ [url]\<rparr>)"
        by (simp add: crawl_inv_def same_config_def)
      from new cfg have adm: "list_all (\<lambda>x. x = base_url g \<or> admissible env g x) new"
        by (auto simp: list_all_iff dest: valid_admissible)
      from inv cond have len: "int (length (visited_urls (self s))) + 1 \<le> max 0 (max_pages g)"
        by (simp add: crawl_inv_def loop_cond_def same_config_def)
      from step q inv fresh ok adm len cfg show ?thesis
        by (simp add: crawl_inv_def successful_snoc same_config_def)
    qed
  qed
qed

lemma crawl_trace_invariant:
  "(\<forall>t. I t \<and> loop_cond t \<longrightarrow> I (snd (crawl_step env t))) \<Longrightarrow> I s \<Longrightarrow>
     list_all I (crawl_trace env s)"
proof (induction env s rule: crawl_trace.induct)
  case (1 env s)
  show ?case
  proof (cases "loop_cond s")
    case False
    with "1.prems" show ?thesis by (simp add: crawl_trace.simps [of env s])
  next
    case True
    obtain r s' where st: "crawl_step env s = (r, s')" by (cases "crawl_step env s")
    from "1.prems" True st have I': "I s'" by fastforce
    show ?thesis
    proof (cases r)
      case (Inl e)
      with True st I' "1.prems" show ?thesis by (simp add: crawl_trace.simps [of env s])
    next
      case (Inr u)
      with "1.IH" [OF True st [symmetric] _ "1.prems"(1) I'] True st "1.prems" show ?thesis
        by (simp add: crawl_trace.simps [of env s])
    qed
  qed
qed

lemma crawl_loop_invariant:
  "(\<forall>t. I t \<and> loop_cond t \<longrightarrow> I (snd (crawl_step env t))) \<Longrightarrow> I s \<Longrightarrow>
     I (snd (crawl_loop env s))"
proof (induction env s rule: crawl_loop.induct)
  case (1 env s)
  show ?case
  proof (cases "loop_cond s")
    case False
    with "1.prems" show ?thesis by (simp add: crawl_loop.simps [of env s])
  next
    case True
    obtain r s' where st: "crawl_step env s = (r, s')" by (cases "crawl_step env s")
    from "1.prems" True st have I': "I s'" by fastforce
    show ?thesis
    proof (cases r)
      case (Inl e)
      with True st I' show ?thesis by (simp add: crawl_loop.simps [of env s])
    next
      case (Inr u)
      with "1.IH" [OF True st [symmetric] _ "1.prems"(1) I'] True st show ?thesis
        by (simp add: crawl_loop.simps [of env s])
    qed
  qed
qed

lemma crawl_loop_exit:
  "fst (crawl_loop env s) = Inr u \<Longrightarrow> \<not> loop_cond (snd (crawl_loop env s))"
proof (induction env s rule: crawl_loop.induct)
  case (1 env s)
  show ?case
  proof (cases "loop_cond s")
    case False
    then show ?thesis by (simp add: crawl_loop.simps [of env s])
  next
    case True
    obtain r s' where st: "crawl_step env s = (r, s')" by (cases "crawl_step env s")
    show ?thesis
    proof (cases r)
      case (Inl e)
      with True st "1.prems" show ?thesis by (simp add: crawl_loop.simps [of env s])
    next
      case (Inr v)
      with "1.IH" [OF True st [symmetric]] True st "1.prems" show ?thesis
        by (simp add: crawl_loop.simps [of env s])
    qed
  qed
qed

lemma init_Inr:
  "init env b m ig = Inr g \<Longrightarrow>
     base_url g = b \<and> max_pages g = m \<and> visited_urls g = [] \<and>
     (\<exists>p. urlparse env b = Inr p \<and> netloc p = domain g)"
  by (auto simp: init_def split: sum.splits)

lemma crawl_urls_state: "snd (crawl_urls env g) = snd (crawl_loop env (crawl_start g))"
  by (simp add: crawl_urls_def split: prod.splits sum.splits)

lemma crawl_urls_Inr:
  "fst (crawl_urls env g) = Inr urls \<Longrightarrow>
     urls = list_of_set env (visited_urls (self (snd (crawl_urls env g)))) \<and>
     \<not> loop_cond (snd (crawl_urls env g))"
proof -
  assume r: "fst (crawl_urls env g) = Inr urls"
  obtain x s where l: "crawl_loop env (crawl_start g) = (x, s)"
    by (cases "crawl_loop env (crawl_start g)")
  with r obtain u where "x = Inr u"
    by (cases x) (auto simp: crawl_urls_def)
  with l r crawl_loop_exit [of env "crawl_start g" u] show ?thesis
    by (simp add: crawl_urls_def)
qed


lemma crawl_inv_final: "visited_urls g = [] \<Longrightarrow> crawl_inv env g (snd (crawl_urls env g))"
  unfolding crawl_urls_state
  by (rule crawl_loop_invariant) (simp_all add: crawl_inv_step crawl_inv_start)

lemma crawl_inv_trace:
  "visited_urls g = [] \<Longrightarrow> list_all (crawl_inv env g) (crawl_trace env (crawl_start g))"
  by (rule crawl_trace_invariant) (simp_all add: crawl_inv_step crawl_inv_start)

lemma crawl_inv_visited:
  "crawl_inv env g s \<Longrightarrow> url \<in> set (visited_urls (self s)) \<Longrightarrow>
     url \<in> set (requested s) \<and> (url = base_url g \<or> admissible env g url)"
proof -
  assume inv: "crawl_inv env g s" and v: "url \<in> set (visited_urls (self s))"
  from inv v have "url \<in> set (requested s)"
    using successful_subset [of env "requested s"] by (auto simp: crawl_inv_def)
  with inv show ?thesis by (auto simp: crawl_inv_def list_all_iff)
qed

subsection \<open>Where an error can come from, and the growth of the request list\<close>



text \<open>
  An exception of \<open>requests.get\<close> that is not a \<open>RequestException\<close> ends the run at
  once: the request is made, nothing is printed, and the exception leaves \<open>crawl_urls\<close>.
\<close>

lemma crawl_loop_raised:
  assumes "loop_cond s" and "urls_to_crawl s = url # rest"
    and "url \<notin> set (visited_urls (self s))"
    and "requests_get env (length (requested s)) url = Raised e"
  shows "crawl_loop env s =
           (Inl e, s\<lparr>urls_to_crawl := rest, requested := requested s @ [url]\<rparr>)"
  using assms(1) crawl_step_raised [OF assms(2,3,4)]
  by (simp add: crawl_loop.simps [of env s])

lemma crawl_step_request:
  assumes "urls_to_crawl s = url # rest" "url \<notin> set (visited_urls (self s))"
  shows "requested (snd (crawl_step env s)) = requested s @ [url]"
proof -
  consider (failed) "fetch_failed (requests_get env (length (requested s)) url)"
    | (raised) e where "requests_get env (length (requested s)) url = Raised e"
    | (ok) "fetch_ok (requests_get env (length (requested s)) url)"
    using fetch_cases by blast
  then show ?thesis
  proof cases
    case failed
    with crawl_step_failed [OF assms, of env] show ?thesis by simp
  next
    case raised
    with crawl_step_raised [OF assms, of env e] show ?thesis by simp
  next
    case ok
    from crawl_step_visited [OF assms ok] show ?thesis by fastforce
  qed
qed

lemma crawl_step_requested:
  "loop_cond s \<Longrightarrow> \<exists>more. requested (snd (crawl_step env s)) = requested s @ more"
proof -
  assume "loop_cond s"
  then obtain url rest where q: "urls_to_crawl s = url # rest"
    by (cases "urls_to_crawl s") (auto simp: loop_cond_def)
  show ?thesis
  proof (cases "url \<in> set (visited_urls (self s))")
    case True
    with q show ?thesis by (simp add: crawl_step_skip)
  next
    case False
    with q show ?thesis by (simp add: crawl_step_request)
  qed
qed

lemma crawl_loop_requested:
  "\<exists>more. requested (snd (crawl_loop env s)) = requested s @ more"
proof (rule crawl_loop_invariant [where I = "\<lambda>t. \<exists>more. requested t = requested s @ more"])
  show "\<forall>t. (\<exists>more. requested t = requested s @ more) \<and> loop_cond t \<longrightarrow>
          (\<exists>more. requested (snd (crawl_step env t)) = requested s @ more)"
    using crawl_step_requested by fastforce
qed simp

subsection \<open>Runs that never enter the loop, and the first request of those that do\<close>

lemma crawl_urls_not_entered:
  assumes "set_iteration env" and "visited_urls g = []" and "max_pages g \<le> 0"
  shows "crawl_urls env g = (Inr [], crawl_start g)"
proof -
  from assms(2,3) have "\<not> loop_cond (crawl_start g)"
    by (simp add: loop_cond_def crawl_start_def)
  then have "crawl_loop env (crawl_start g) = (Inr (), crawl_start g)"
    by (simp add: crawl_loop.simps [of env "crawl_start g"])
  moreover from assms(1) have "list_of_set env [] = []"
    by (metis set_iteration_length length_0_conv)
  ultimately show ?thesis
    using assms(2) by (simp add: crawl_urls_def crawl_start_def)
qed

lemma crawl_loop_next_request:
  assumes "loop_cond s" and "urls_to_crawl s = url # rest"
    and "url \<notin> set (visited_urls (self s))"
  shows "\<exists>more. requested (snd (crawl_loop env s)) = requested s @ url # more"
proof -
  obtain r s' where st: "crawl_step env s = (r, s')" by (cases "crawl_step env s")
  with crawl_step_request [OF assms(2,3), of env] have req: "requested s' = requested s @ [url]"
    by simp
  show ?thesis
  proof (cases r)
    case (Inl e)
    with assms(1) st req show ?thesis by (simp add: crawl_loop.simps [of env s])
  next
    case (Inr u)
    with assms(1) st have "crawl_loop env s = crawl_loop env s'"
      by (simp add: crawl_loop.simps [of env s])
    with crawl_loop_requested [of env s'] req show ?thesis by auto
  qed
qed

lemma crawl_urls_first_request:
  assumes "visited_urls g = []" and "0 < max_pages g"
  shows "\<exists>more. requested (snd (crawl_urls env g)) = base_url g # more"
proof -
  from assms have "loop_cond (crawl_start g)"
    by (simp add: loop_cond_def crawl_start_def)
  moreover have "urls_to_crawl (crawl_start g) = base_url g # []"
    by (simp add: crawl_start_def)
  moreover have "base_url g \<notin> set (visited_urls (self (crawl_start g)))"
    using assms(1) by (simp add: crawl_start_def)
  ultimately have "\<exists>more. requested (snd (crawl_loop env (crawl_start g))) =
                     requested (crawl_start g) @ base_url g # more"
    by (rule crawl_loop_next_request)
  then show ?thesis by (simp add: crawl_urls_state crawl_start_def)
qed

subsection \<open>The states in which the loop condition is tested\<close>








section \<open>The claims\<close>

subsection \<open>The sample environments iterate properly\<close>

lemma sample_set_iteration: "set_iteration sample_env"
  by (simp add: set_iteration_def sample_env_def)

lemma sample_rev_set_iteration: "set_iteration sample_env_rev"
  by (simp add: set_iteration_def sample_env_def sample_env_rev_def)

subsection \<open>C1: ignored URLs\<close>

text \<open>
  Claim C1, as amended. For every run on a freshly built object, under every behaviour of
  the fetcher, every URL of the ignore set other than the base URL is never handed to
  \<open>requests.get\<close> and is not in the list \<open>crawl_urls\<close> returns. (The base URL is
  queued without any test, so it is fetched even when it is in the ignore set.)
\<close>

theorem ignored_urls_not_fetched:
  assumes "set_iteration env" and "init env b m ig = Inr g"
    and "url \<in> ignore_urls g" and "url \<noteq> b"
  shows "url \<notin> set (requested (snd (crawl_urls env g))) \<and>
         (\<forall>urls. fst (crawl_urls env g) = Inr urls \<longrightarrow> url \<notin> set urls)"
proof -
  from assms(2) have g: "base_url g = b" "visited_urls g = []"
    using init_Inr by blast+
  then have inv: "crawl_inv env g (snd (crawl_urls env g))"
    by (simp add: crawl_inv_final)
  have adm: "\<not> admissible env g url"
    using assms(3) by (simp add: admissible_def split: sum.splits)
  from inv adm assms(4) g(1) have req: "url \<notin> set (requested (snd (crawl_urls env g)))"
    by (auto simp: crawl_inv_def list_all_iff)
  have "url \<notin> set urls" if "fst (crawl_urls env g) = Inr urls" for urls
  proof -
    from that have "set urls = set (visited_urls (self (snd (crawl_urls env g))))"
      using crawl_urls_Inr [of env g urls] assms(1) by (simp add: set_iteration_set)
    with req crawl_inv_visited [OF inv] show ?thesis by blast
  qed
  with req show ?thesis by blast
qed

text \<open>On the sample site with \<open>/b\<close> ignored, \<open>/b\<close> is never requested.\<close>

theorem ignored_urls_not_fetched_witness:
  "set_iteration sample_env \<and>
   init sample_env ''http://example.com/'' 10 (Some [''http://example.com/b'']) =
     Inr (sample_gen 10 {''http://example.com/b''}) \<and>
   ''http://example.com/b'' \<in> ignore_urls (sample_gen 10 {''http://example.com/b''}) \<and>
   ''http://example.com/b'' \<notin>
     set (requested (snd (crawl_urls sample_env (sample_gen 10 {''http://example.com/b''})))) \<and>
   fst (crawl_urls sample_env (sample_gen 10 {''http://example.com/b''})) =
     Inr [''http://example.com/'', ''http://example.com/a'']"
proof -
  have 1: "set_iteration sample_env" by (rule sample_set_iteration)
  have 2: "init sample_env ''http://example.com/'' 10 (Some [''http://example.com/b'']) =
     Inr (sample_gen 10 {''http://example.com/b''})" by code_simp
  have 3: "''http://example.com/b'' \<in> ignore_urls (sample_gen 10 {''http://example.com/b''})"
    by (simp add: sample_gen_def)
  have 4: "''http://example.com/b'' \<noteq> ''http://example.com/''" by simp
  have 5: "fst (crawl_urls sample_env (sample_gen 10 {''http://example.com/b''})) =
     Inr [''http://example.com/'', ''http://example.com/a'']" by code_simp
  from ignored_urls_not_fetched [OF 1 2 3 4] 1 2 3 5 show ?thesis by simp
qed

text \<open>
  C1 as stated fails when the base URL is ignored: it is the first URL requested, and it
  is returned.
\<close>

theorem ignored_base_url_is_fetched:
  "init sample_env ''http://example.com/'' 10 (Some [''http://example.com/'']) =
     Inr (sample_gen 10 {''http://example.com/''}) \<and>
   ''http://example.com/'' \<in> ignore_urls (sample_gen 10 {''http://example.com/''}) \<and>
   requested (snd (crawl_urls sample_env (sample_gen 10 {''http://example.com/''}))) =
     [''http://example.com/'', ''http://example.com/b'', ''http://example.com/a'',
      ''http://example.com/missing''] \<and>
   fst (crawl_urls sample_env (sample_gen 10 {''http://example.com/''})) =
     Inr [''http://example.com/'', ''http://example.com/b'', ''http://example.com/a'']"
  by code_simp

subsection \<open>C2: the page cap\<close>

text \<open>
  Claim C2, as amended. At every point of a run on a freshly built object the visited set
  holds at most \<open>max 0 max_pages\<close> URLs, and so does the returned list: at most
  \<open>max_pages\<close> when that is not negative, none otherwise.
\<close>

theorem visited_within_cap:
  assumes "set_iteration env" and "init env b m ig = Inr g"
  shows "(\<forall>s \<in> set (crawl_trace env (crawl_start g)).
            int (length (visited_urls (self s))) \<le> max 0 m) \<and>
         (\<forall>urls. fst (crawl_urls env g) = Inr urls \<longrightarrow> int (length urls) \<le> max 0 m)"
proof -
  from assms(2) have g: "max_pages g = m" "visited_urls g = []"
    using init_Inr by blast+
  from g(2) have "list_all (crawl_inv env g) (crawl_trace env (crawl_start g))"
    by (rule crawl_inv_trace)
  with g(1) have trace: "\<forall>s \<in> set (crawl_trace env (crawl_start g)).
            int (length (visited_urls (self s))) \<le> max 0 m"
    by (auto simp: list_all_iff crawl_inv_def)
  have "int (length urls) \<le> max 0 m" if "fst (crawl_urls env g) = Inr urls" for urls
  proof -
    from that have "length urls = length (visited_urls (self (snd (crawl_urls env g))))"
      using crawl_urls_Inr [of env g urls] assms(1) by (simp add: set_iteration_length)
    with crawl_inv_final [OF g(2), of env] g(1) show ?thesis
      by (simp add: crawl_inv_def)
  qed
  with trace show ?thesis by blast
qed

text \<open>On the sample site with a cap of 2, two URLs are returned.\<close>

theorem visited_within_cap_witness:
  "set_iteration sample_env \<and>
   init sample_env ''http://example.com/'' 2 None = Inr (sample_gen 2 {}) \<and>
   fst (crawl_urls sample_env (sample_gen 2 {})) =
     Inr [''http://example.com/'', ''http://example.com/b''] \<and>
   int (length [''http://example.com/'', ''http://example.com/b'']) \<le> max 0 2"
proof -
  have 1: "set_iteration sample_env" by (rule sample_set_iteration)
  have 2: "init sample_env ''http://example.com/'' 2 None = Inr (sample_gen 2 {})"
    by code_simp
  have 3: "fst (crawl_urls sample_env (sample_gen 2 {})) =
     Inr [''http://example.com/'', ''http://example.com/b'']" by code_simp
  from visited_within_cap [OF 1 2] 3
  have "int (length [''http://example.com/'', ''http://example.com/b'']) \<le> max 0 2"
    by blast
  with 1 2 3 show ?thesis by blast
qed

text \<open>
  C2 as stated fails for a negative cap: with \<open>max_pages = -1\<close> the returned list is
  empty, and its length 0 is not at most \<open>-1\<close>.
\<close>

theorem negative_max_pages_counterexample:
  "init sample_env ''http://example.com/'' (- 1) None = Inr (sample_gen (- 1) {}) \<and>
   fst (crawl_urls sample_env (sample_gen (- 1) {})) = Inr [] \<and>
   \<not> int (length ([] :: string list)) \<le> max_pages (sample_gen (- 1) {})"
  by code_simp

subsection \<open>C3: only URLs of the base URL's host\<close>

text \<open>
  Claim C3. \<open>domain\<close> is the \<open>netloc\<close> of the parsed base URL, set once by
  \<open>__init__\<close> and never changed by a run; every URL in the visited set at any point of
  a run, and so every URL in the returned list, parses to that same \<open>netloc\<close>.
\<close>

theorem visited_urls_on_domain:
  assumes "set_iteration env" and "init env b m ig = Inr g"
  shows "(\<exists>p. urlparse env b = Inr p \<and> domain g = netloc p) \<and>
         (\<forall>s \<in> set (crawl_trace env (crawl_start g)).
            domain (self s) = domain g \<and>
            (\<forall>url \<in> set (visited_urls (self s)).
               \<exists>p. urlparse env url = Inr p \<and> netloc p = domain g)) \<and>
         (\<forall>urls. fst (crawl_urls env g) = Inr urls \<longrightarrow>
            (\<forall>url \<in> set urls. \<exists>p. urlparse env url = Inr p \<and> netloc p = domain g))"
proof -
  from assms(2) have g: "base_url g = b" "visited_urls g = []"
    and b: "\<exists>p. urlparse env b = Inr p \<and> netloc p = domain g"
    using init_Inr by blast+
  have host: "\<exists>p. urlparse env url = Inr p \<and> netloc p = domain g"
    if "crawl_inv env g s" "url \<in> set (visited_urls (self s))" for s url
  proof -
    from crawl_inv_visited [OF that] have "url = b \<or> admissible env g url"
      by (simp add: g(1))
    with b show ?thesis
      by (auto simp: admissible_def split: sum.splits)
  qed
  from g(2) have "list_all (crawl_inv env g) (crawl_trace env (crawl_start g))"
    by (rule crawl_inv_trace)
  with host have trace: "\<forall>s \<in> set (crawl_trace env (crawl_start g)).
            domain (self s) = domain g \<and>
            (\<forall>url \<in> set (visited_urls (self s)).
               \<exists>p. urlparse env url = Inr p \<and> netloc p = domain g)"
    by (auto simp: list_all_iff crawl_inv_def same_config_def)
  have "\<forall>url \<in> set urls. \<exists>p. urlparse env url = Inr p \<and> netloc p = domain g"
    if "fst (crawl_urls env g) = Inr urls" for urls
  proof -
    from that have "set urls = set (visited_urls (self (snd (crawl_urls env g))))"
      using crawl_urls_Inr [of env g urls] assms(1) by (simp add: set_iteration_set)
    with host [OF crawl_inv_final [OF g(2), of env]] show ?thesis by blast
  qed
  with b trace show ?thesis by metis
qed

text \<open>On the sample site, \<open>/b\<close> is returned and its host is \<open>example.com\<close>.\<close>

theorem visited_urls_on_domain_witness:
  "set_iteration sample_env \<and>
   init sample_env ''http://example.com/'' 2 None = Inr (sample_gen 2 {}) \<and>
   fst (crawl_urls sample_env (sample_gen 2 {})) =
     Inr [''http://example.com/'', ''http://example.com/b''] \<and>
   (\<exists>p. urlparse sample_env ''http://example.com/b'' = Inr p \<and>
        netloc p = domain (sample_gen 2 {}))"
proof -
  have 1: "set_iteration sample_env" by (rule sample_set_iteration)
  have 2: "init sample_env ''http://example.com/'' 2 None = Inr (sample_gen 2 {})"
    by code_simp
  have 3: "fst (crawl_urls sample_env (sample_gen 2 {})) =
     Inr [''http://example.com/'', ''http://example.com/b'']" by code_simp
  from visited_urls_on_domain [OF 1 2] 3
  have "\<exists>p. urlparse sample_env ''http://example.com/b'' = Inr p \<and>
        netloc p = domain (sample_gen 2 {})"
    by simp
  with 1 2 3 show ?thesis by blast
qed


subsection \<open>C4: the validity predicate\<close>

text \<open>
  Claim C4 says the file test looks at the path of the URL. \<open>_is_file_url\<close> is handed the
  whole URL string and tests how that string ends, so a query or a fragment after the path
  changes the answer both ways. With no page visited and a cap of 10, the URL
  \<open>http://example.com/report.pdf?download=1\<close> has the path \<open>/report.pdf\<close>, which ends in
  \<open>.pdf\<close>, and the predicate returns true; \<open>http://example.com/page?file=a.pdf\<close> has the
  path \<open>/page\<close>, which ends in no blocked suffix, and the predicate returns false.
\<close>

theorem file_test_reads_whole_url:
  "urlparse sample_env ''http://example.com/report.pdf?download=1'' =
     Inr \<lparr> scheme = ''http'', netloc = ''example.com'', path = ''/report.pdf'', params = [],
           query = ''download=1'', fragment = [] \<rparr> \<and>
   endswith (lower ''/report.pdf'') ''.pdf'' \<and>
   is_valid_url sample_env (sample_gen 10 {}) ''http://example.com/report.pdf?download=1'' =
     Inr True \<and>
   urlparse sample_env ''http://example.com/page?file=a.pdf'' =
     Inr \<lparr> scheme = ''http'', netloc = ''example.com'', path = ''/page'', params = [],
           query = ''file=a.pdf'', fragment = [] \<rparr> \<and>
   \<not> is_file_url ''/page'' \<and>
   is_valid_url sample_env (sample_gen 10 {}) ''http://example.com/page?file=a.pdf'' =
     Inr False"
  by code_simp

subsection \<open>C5: failed fetches\<close>



subsection \<open>C6: the order of the returned list\<close>

text \<open>
  Claim C6, as amended. The visited set holds the successfully fetched URLs in the order
  of their requests, and the list \<open>crawl_urls\<close> returns holds exactly those URLs, each
  once, in the order in which the set happens to be iterated: it is a permutation of the
  fetch order, not necessarily the fetch order itself.
\<close>

theorem returned_list_permutes_fetch_order:
  assumes "set_iteration env" and "init env b m ig = Inr g"
    and "crawl_urls env g = (Inr urls, s)"
  shows "visited_urls (self s) = successful env (requested s) \<and>
         mset urls = mset (successful env (requested s)) \<and> distinct urls"
proof -
  from assms(2) have "visited_urls g = []" using init_Inr by blast
  from crawl_inv_final [OF this, of env] assms(3)
  have inv: "crawl_inv env g s" by simp
  from assms(3) have "urls = list_of_set env (visited_urls (self s))"
    using crawl_urls_Inr [of env g urls] by simp
  with assms(1) have "mset urls = mset (visited_urls (self s))"
    and "distinct urls = distinct (visited_urls (self s))"
    by (simp_all add: set_iteration_def set_iteration_distinct)
  with inv show ?thesis by (simp add: crawl_inv_def)
qed

text \<open>On the sample site with a cap of 2 and a set iterated backwards.\<close>

theorem returned_list_permutes_fetch_order_witness:
  "set_iteration sample_env_rev \<and>
   init sample_env_rev ''http://example.com/'' 2 None = Inr (sample_gen 2 {}) \<and>
   fst (crawl_urls sample_env_rev (sample_gen 2 {})) =
     Inr [''http://example.com/b'', ''http://example.com/''] \<and>
   mset [''http://example.com/b'', ''http://example.com/''] =
     mset (successful sample_env_rev
             (requested (snd (crawl_urls sample_env_rev (sample_gen 2 {})))))"
proof -
  have 1: "set_iteration sample_env_rev" by (rule sample_rev_set_iteration)
  have 2: "init sample_env_rev ''http://example.com/'' 2 None = Inr (sample_gen 2 {})"
    by code_simp
  have 3: "fst (crawl_urls sample_env_rev (sample_gen 2 {})) =
     Inr [''http://example.com/b'', ''http://example.com/'']" by code_simp
  then have 4: "crawl_urls sample_env_rev (sample_gen 2 {}) =
     (Inr [''http://example.com/b'', ''http://example.com/''],
      snd (crawl_urls sample_env_rev (sample_gen 2 {})))"
    by (metis prod.collapse)
  from returned_list_permutes_fetch_order [OF 1 2 4] 1 2 3 show ?thesis by blast
qed

text \<open>
  C6 as stated fails when the set is not iterated in insertion order: the home page is
  fetched first and \<open>/b\<close> second, as the printed lines show, and the returned list starts
  with \<open>/b\<close>.
\<close>

theorem fetch_order_counterexample:
  "init sample_env_rev ''http://example.com/'' 2 None = Inr (sample_gen 2 {}) \<and>
   stdout (snd (crawl_urls sample_env_rev (sample_gen 2 {}))) =
     [''Visited: http://example.com/'', ''Visited: http://example.com/b''] \<and>
   successful sample_env_rev (requested (snd (crawl_urls sample_env_rev (sample_gen 2 {})))) =
     [''http://example.com/'', ''http://example.com/b''] \<and>
   fst (crawl_urls sample_env_rev (sample_gen 2 {})) =
     Inr [''http://example.com/b'', ''http://example.com/'']"
  by code_simp

subsection \<open>C7: configuration errors\<close>

text \<open>
  Claim C7, as amended. \<open>__init__\<close> rejects a configuration only when \<open>urlparse\<close> raises on
  the base URL, which is before any fetch. Every other configuration is accepted with the
  base URL and the cap as given: with a cap that is not positive the run returns the empty
  list normally, leaving the state as it started, and with a positive cap the base URL,
  whatever its form, is the first URL handed to \<open>requests.get\<close>.
\<close>

theorem configuration_not_checked:
  "(\<forall>e. urlparse env b = Inl e \<longrightarrow> init env b m ig = Inl e) \<and>
   (\<forall>p. urlparse env b = Inr p \<longrightarrow>
      (\<exists>g. init env b m ig = Inr g \<and> base_url g = b \<and> max_pages g = m \<and>
           (set_iteration env \<and> m \<le> 0 \<longrightarrow> crawl_urls env g = (Inr [], crawl_start g)) \<and>
           (0 < m \<longrightarrow> (\<exists>more. requested (snd (crawl_urls env g)) = b # more))))"
proof -
  have "init env b m ig = Inl e" if "urlparse env b = Inl e" for e
    using that by (simp add: init_def)
  moreover have "\<exists>g. init env b m ig = Inr g \<and> base_url g = b \<and> max_pages g = m \<and>
           (set_iteration env \<and> m \<le> 0 \<longrightarrow> crawl_urls env g = (Inr [], crawl_start g)) \<and>
           (0 < m \<longrightarrow> (\<exists>more. requested (snd (crawl_urls env g)) = b # more))"
    if "urlparse env b = Inr p" for p
  proof -
    from that obtain g where g: "init env b m ig = Inr g"
      by (simp add: init_def)
    then have f: "base_url g = b" "max_pages g = m" "visited_urls g = []"
      using init_Inr by blast+
    from f have "set_iteration env \<and> m \<le> 0 \<longrightarrow> crawl_urls env g = (Inr [], crawl_start g)"
      using crawl_urls_not_entered [of env g] by simp
    moreover from f have "0 < m \<longrightarrow> (\<exists>more. requested (snd (crawl_urls env g)) = b # more)"
      using crawl_urls_first_request [of g env] by auto
    ultimately show ?thesis using g f by blast
  qed
  ultimately show ?thesis by blast
qed

text \<open>The base URL \<open>not a url\<close> with a cap of 0 is accepted and yields the empty list.\<close>

theorem configuration_not_checked_witness:
  "set_iteration sample_env \<and>
   urlparse sample_env ''not a url'' =
     Inr \<lparr> scheme = [], netloc = [], path = ''not a url'', params = [], query = [],
           fragment = [] \<rparr> \<and>
   init sample_env ''not a url'' 0 None = Inr (malformed_gen 0) \<and>
   crawl_urls sample_env (malformed_gen 0) = (Inr [], crawl_start (malformed_gen 0))"
proof -
  have 1: "set_iteration sample_env" by (rule sample_set_iteration)
  have 2: "urlparse sample_env ''not a url'' =
     Inr \<lparr> scheme = [], netloc = [], path = ''not a url'', params = [], query = [],
           fragment = [] \<rparr>" by code_simp
  have 3: "init sample_env ''not a url'' 0 None = Inr (malformed_gen 0)" by code_simp
  from configuration_not_checked [of sample_env "''not a url''" 0 None] 1 2 3
  have "crawl_urls sample_env (malformed_gen 0) = (Inr [], crawl_start (malformed_gen 0))"
    by auto
  with 1 2 3 show ?thesis by blast
qed

text \<open>
  C7 as stated fails: neither a base URL without scheme and host nor a cap of 0 is
  rejected. The run returns the empty list normally in each case, and with a cap of 10
  the malformed base URL is handed to \<open>requests.get\<close>.
\<close>

theorem bad_configuration_is_accepted:
  "init sample_env ''not a url'' 0 None = Inr (malformed_gen 0) \<and>
   fst (crawl_urls sample_env (malformed_gen 0)) = Inr [] \<and>
   init sample_env ''not a url'' 10 None = Inr (malformed_gen 10) \<and>
   fst (crawl_urls sample_env (malformed_gen 10)) = Inr [] \<and>
   requested (snd (crawl_urls sample_env (malformed_gen 10))) = [''not a url''] \<and>
   init sample_env ''http://example.com/'' 0 None = Inr (sample_gen 0 {}) \<and>
   fst (crawl_urls sample_env (sample_gen 0 {})) = Inr []"
  by code_simp

subsection \<open>C9: the validity predicate on the returned URLs\<close>

text \<open>
  Claim C9, as amended. In the state a run leaves behind, the validity predicate returns
  false on every returned URL, which is in the visited set; its \<open>netloc\<close> is the domain;
  if it is not the base URL its scheme is \<open>http\<close> or \<open>https\<close>, it passes the file test and
  it is not in the ignore set; and the page-count clause fails exactly when the returned
  list holds \<open>max_pages\<close> URLs.
\<close>

theorem revalidation_of_returned_urls:
  assumes "set_iteration env" and "init env b m ig = Inr g"
    and "crawl_urls env g = (Inr urls, s)" and "url \<in> set urls"
  shows "is_valid_url env (self s) url = Inr False \<and>
         url \<in> set (visited_urls (self s)) \<and>
         (\<exists>p. urlparse env url = Inr p \<and> netloc p = domain (self s) \<and>
              (url \<noteq> b \<longrightarrow> scheme p \<in> set [''http'', ''https''] \<and> \<not> is_file_url url \<and>
                            url \<notin> ignore_urls (self s))) \<and>
         ((\<not> int (length (visited_urls (self s))) < max_pages (self s)) =
            (int (length urls) = m))"
proof -
  from assms(2) have g: "base_url g = b" "max_pages g = m" "visited_urls g = []"
    and b: "\<exists>p. urlparse env b = Inr p \<and> netloc p = domain g"
    using init_Inr by blast+
  from crawl_inv_final [OF g(3), of env] assms(3)
  have inv: "crawl_inv env g s" by simp
  then have cfg: "domain (self s) = domain g" "ignore_urls (self s) = ignore_urls g"
    "max_pages (self s) = m"
    using g(2) by (simp_all add: crawl_inv_def same_config_def)
  from assms(3) have urls: "urls = list_of_set env (visited_urls (self s))"
    using crawl_urls_Inr [of env g urls] by simp
  with assms(1,4) have v: "url \<in> set (visited_urls (self s))"
    by (simp add: set_iteration_set)
  from crawl_inv_visited [OF inv v] g(1) have "url = b \<or> admissible env g url"
    by simp
  with b cfg have parsed: "\<exists>p. urlparse env url = Inr p \<and> netloc p = domain (self s) \<and>
              (url \<noteq> b \<longrightarrow> scheme p \<in> set [''http'', ''https''] \<and> \<not> is_file_url url \<and>
                            url \<notin> ignore_urls (self s))"
    by (auto simp: admissible_def split: sum.splits)
  with v have invalid: "is_valid_url env (self s) url = Inr False"
    by (auto simp: is_valid_url_def)
  from urls assms(1) have len: "length urls = length (visited_urls (self s))"
    by (simp add: set_iteration_length)
  from assms(4) have "0 < length urls" by (cases urls) auto
  moreover from inv g(2) have "int (length (visited_urls (self s))) \<le> max 0 m"
    by (simp add: crawl_inv_def)
  ultimately have "int (length urls) \<le> m"
    using len by (simp add: max_def split: if_splits)
  then have "(\<not> int (length (visited_urls (self s))) < max_pages (self s)) =
            (int (length urls) = m)"
    using len cfg(3) by auto
  with invalid v parsed show ?thesis by blast
qed

text \<open>
  On the sample site with a cap of 10, three URLs are returned, \<open>/a\<close> is no longer valid,
  and the page-count clause still passes.
\<close>

theorem revalidation_of_returned_urls_witness:
  "set_iteration sample_env \<and>
   init sample_env ''http://example.com/'' 10 None = Inr (sample_gen 10 {}) \<and>
   fst (crawl_urls sample_env (sample_gen 10 {})) =
     Inr [''http://example.com/'', ''http://example.com/b'', ''http://example.com/a''] \<and>
   is_valid_url sample_env (self (snd (crawl_urls sample_env (sample_gen 10 {}))))
     ''http://example.com/a'' = Inr False \<and>
   int (length (visited_urls (self (snd (crawl_urls sample_env (sample_gen 10 {}))))))
     < max_pages (self (snd (crawl_urls sample_env (sample_gen 10 {}))))"
proof -
  have 1: "set_iteration sample_env" by (rule sample_set_iteration)
  have 2: "init sample_env ''http://example.com/'' 10 None = Inr (sample_gen 10 {})"
    by code_simp
  have 3: "fst (crawl_urls sample_env (sample_gen 10 {})) =
     Inr [''http://example.com/'', ''http://example.com/b'', ''http://example.com/a'']"
    by code_simp
  then have 4: "crawl_urls sample_env (sample_gen 10 {}) =
     (Inr [''http://example.com/'', ''http://example.com/b'', ''http://example.com/a''],
      snd (crawl_urls sample_env (sample_gen 10 {})))"
    by (metis prod.collapse)
  have 5: "''http://example.com/a'' \<in>
     set [''http://example.com/'', ''http://example.com/b'', ''http://example.com/a'']"
    by simp
  from revalidation_of_returned_urls [OF 1 2 4 5] 1 2 3 show ?thesis by simp
qed

text \<open>
  C9 as stated fails when the run stops at the cap: with a cap of 1 the home page is
  returned, the visited set then holds 1 URL, and the page-count clause fails as well.
\<close>

theorem cap_clause_counterexample:
  "init sample_env ''http://example.com/'' 1 None = Inr (sample_gen 1 {}) \<and>
   fst (crawl_urls sample_env (sample_gen 1 {})) = Inr [''http://example.com/''] \<and>
   visited_urls (self (snd (crawl_urls sample_env (sample_gen 1 {})))) =
     [''http://example.com/''] \<and>
   max_pages (self (snd (crawl_urls sample_env (sample_gen 1 {})))) = 1 \<and>
   \<not> int (length (visited_urls (self (snd (crawl_urls sample_env (sample_gen 1 {}))))))
       < max_pages (self (snd (crawl_urls sample_env (sample_gen 1 {}))))"
  by code_simp

subsection \<open>C10: a cap that is not positive\<close>

text \<open>
  Claim C10. On a freshly built object with \<open>max_pages\<close> at most 0, \<open>crawl_urls\<close> returns
  the empty list, hands no URL to \<open>requests.get\<close> and prints nothing.
\<close>

theorem no_fetch_without_positive_cap:
  assumes "set_iteration env" and "init env b m ig = Inr g" and "m \<le> 0"
  shows "fst (crawl_urls env g) = Inr [] \<and> requested (snd (crawl_urls env g)) = [] \<and>
         stdout (snd (crawl_urls env g)) = []"
proof -
  from assms(2) have "max_pages g = m" "visited_urls g = []"
    using init_Inr by blast+
  with assms(1,3) have "crawl_urls env g = (Inr [], crawl_start g)"
    by (simp add: crawl_urls_not_entered)
  then show ?thesis by (simp add: crawl_start_def)
qed

text \<open>On the sample site with a cap of 0.\<close>

theorem no_fetch_without_positive_cap_witness:
  "set_iteration sample_env \<and>
   init sample_env ''http://example.com/'' 0 None = Inr (sample_gen 0 {}) \<and>
   fst (crawl_urls sample_env (sample_gen 0 {})) = Inr [] \<and>
   requested (snd (crawl_urls sample_env (sample_gen 0 {}))) = []"
proof -
  have 1: "set_iteration sample_env" by (rule sample_set_iteration)
  have 2: "init sample_env ''http://example.com/'' 0 None = Inr (sample_gen 0 {})"
    by code_simp
  have 3: "(0::int) \<le> 0" by simp
  from no_fetch_without_positive_cap [OF 1 2 3] 1 2 show ?thesis by simp
qed

end
